theory Spec2Isabelle
  imports Main "HOL-Library.Sublist"
begin

section \<open>Values and strings\<close>

text \<open>
  A Python \<open>str\<close> is modelled as a \<open>string\<close>: a list of \<open>char\<close>, each \<open>char\<close> standing
  for one code point below 256. On these code points \<open>str.lower\<close> maps \<open>A\<close>..\<open>Z\<close> and the
  Latin-1 capitals (192..222 without 215) 32 places up and leaves the rest alone, the
  regular-expression class \<open>\d\<close> is \<open>0\<close>..\<open>9\<close>, and \<open>str.strip\<close> removes the
  white-space code points listed in \<open>py_isspace\<close>.

  A cell of a row read by \<open>csv.DictReader\<close> is a \<open>str\<close>, or \<open>None\<close> where the line
  had fewer fields than the header. A row is a map from column names to cells; the
  surplus fields of a line longer than the header, which the reader keeps under the key
  \<open>None\<close>, are not part of it.
\<close>

datatype pyval = PyNone | Str string

type_synonym csv_row = "string \<rightharpoonup> pyval"

type_synonym path = string

definition row_get :: "csv_row \<Rightarrow> string \<Rightarrow> pyval" where
  \<comment> \<open>\<open>record.get(column, "")\<close>\<close>
  "row_get r col = (case r col of None \<Rightarrow> Str [] | Some v \<Rightarrow> v)"

definition truthy :: "pyval \<Rightarrow> bool" where
  \<comment> \<open>Python truth of a cell: \<open>None\<close> and \<open>""\<close> are false\<close>
  "truthy v = (case v of PyNone \<Rightarrow> False | Str s \<Rightarrow> s \<noteq> [])"

definition py_lower :: "char \<Rightarrow> char" where
  "py_lower c =
     (let n = (of_char c :: nat)
      in if (65 \<le> n \<and> n \<le> 90) \<or> (192 \<le> n \<and> n \<le> 222 \<and> n \<noteq> 215)
         then char_of (n + 32) else c)"

definition is_az :: "char \<Rightarrow> bool" where
  "is_az c = (97 \<le> (of_char c :: nat) \<and> (of_char c :: nat) \<le> 122)"

definition is_digit :: "char \<Rightarrow> bool" where
  "is_digit c = (48 \<le> (of_char c :: nat) \<and> (of_char c :: nat) \<le> 57)"

definition is_hex :: "char \<Rightarrow> bool" where
  \<comment> \<open>the class \<open>[0-9a-fA-F]\<close>\<close>
  "is_hex c =
     (let n = (of_char c :: nat)
      in (48 \<le> n \<and> n \<le> 57) \<or> (97 \<le> n \<and> n \<le> 102) \<or> (65 \<le> n \<and> n \<le> 70))"

definition py_isspace :: "char \<Rightarrow> bool" where
  "py_isspace c =
     (let n = (of_char c :: nat)
      in (9 \<le> n \<and> n \<le> 13) \<or> (28 \<le> n \<and> n \<le> 32) \<or> n = 133 \<or> n = 160)"

definition py_strip :: "string \<Rightarrow> string" where
  "py_strip s = rev (dropWhile py_isspace (rev (dropWhile py_isspace s)))"

section \<open>Normalizer\<close>

definition normalize_text :: "pyval \<Rightarrow> bool \<Rightarrow> string" where
  "normalize_text text remove_numbers =
     (if \<not> truthy text then []
      else (case text of
              PyNone \<Rightarrow> []
            | Str s \<Rightarrow>
                (let t = map py_lower s
                 in if remove_numbers then filter is_az t
                    else filter (\<lambda>c. is_az c \<or> is_digit c) t)))"

section \<open>FilenameDecoder\<close>

text \<open>
  \<open>re.search\<close> for a pattern without alternatives of different lengths: the leftmost
  position at which the pattern matches, as the number of characters before it.
\<close>

fun re_search :: "(string \<Rightarrow> bool) \<Rightarrow> string \<Rightarrow> nat option" where
  "re_search here [] = (if here [] then Some 0 else None)"
| "re_search here (c # cs) =
     (if here (c # cs) then Some 0 else map_option Suc (re_search here cs))"

text \<open>The pattern \<open>_(\d{4})_\<close>, matched at the start of the given text.\<close>

fun year_mid_here :: "string \<Rightarrow> bool" where
  "year_mid_here (u # a # b # c # d # v # rest) =
     (u = CHR ''_'' \<and> is_digit a \<and> is_digit b \<and> is_digit c \<and> is_digit d \<and> v = CHR ''_'')"
| "year_mid_here _ = False"

text \<open>
  The pattern \<open>_(\d{4})$\<close>, matched at the start of the given text. Without the
  \<open>MULTILINE\<close> flag, \<open>$\<close> matches at the end of the string and also just before a
  newline that is the last character of the string.
\<close>

fun year_end_here :: "string \<Rightarrow> bool" where
  "year_end_here (u # a # b # c # d # rest) =
     (u = CHR ''_'' \<and> is_digit a \<and> is_digit b \<and> is_digit c \<and> is_digit d \<and>
      (rest = [] \<or> rest = [CHR 0x0A]))"
| "year_end_here _ = False"

definition extract_title_from_pdf_name :: "string \<Rightarrow> bool \<Rightarrow> string" where
  "extract_title_from_pdf_name pdf_name has_year_pattern =
     (if has_year_pattern then
        (case re_search year_mid_here pdf_name of
           Some i \<Rightarrow> take i pdf_name
         | None \<Rightarrow>
             (case re_search year_end_here pdf_name of
                Some i \<Rightarrow> take i pdf_name
              | None \<Rightarrow> pdf_name))
      else pdf_name)"

definition extract_doi_from_pdf_name :: "string \<Rightarrow> string" where
  "extract_doi_from_pdf_name pdf_name =
     (if prefix ''isj.'' pdf_name then ''10.1111/'' @ pdf_name
      else if prefix ''j.1365-2575'' pdf_name then ''10.1111/'' @ pdf_name
      else if prefix ''10.'' pdf_name then pdf_name
      else pdf_name)"

text \<open>
  \<open>re.sub(r'#x[0-9a-fA-F]+;', '', filename)\<close>. \<open>isr_hex_semi\<close> matches \<open>[0-9a-fA-F]+;\<close>
  at the start of a text and returns what follows the match; a semicolon is no
  hexadecimal digit, so the greedy run is the only candidate.
\<close>

fun isr_hex_semi :: "string \<Rightarrow> string option" where
  "isr_hex_semi [] = None"
| "isr_hex_semi (c # cs) =
     (if is_hex c then
        (case cs of
           [] \<Rightarrow> None
         | d # ds \<Rightarrow> if d = CHR '';'' then Some ds else isr_hex_semi cs)
      else None)"

fun isr_here :: "string \<Rightarrow> string option" where
  "isr_here (h # x # rest) =
     (if h = CHR ''#'' \<and> x = CHR ''x'' then isr_hex_semi rest else None)"
| "isr_here _ = None"

lemma isr_hex_semi_shorter: "isr_hex_semi s = Some r \<Longrightarrow> length r < length s"
  by (induction s rule: isr_hex_semi.induct) (auto split: if_splits list.splits)

lemma isr_here_shorter: "isr_here s = Some r \<Longrightarrow> length r < length s"
  by (cases s rule: isr_here.cases) (auto split: if_splits dest: isr_hex_semi_shorter)

function remove_isr_encoding :: "string \<Rightarrow> string" where
  "remove_isr_encoding [] = []"
| "remove_isr_encoding (c # cs) =
     (case isr_here (c # cs) of
        Some rest \<Rightarrow> remove_isr_encoding rest
      | None \<Rightarrow> c # remove_isr_encoding cs)"
  by pat_completeness auto
termination
  by (relation "measure length") (auto dest: isr_here_shorter)

section \<open>DuplicateDetector\<close>

datatype error = IndexError | TypeError

text \<open>
  \<open>value_counts\<close> is a \<open>defaultdict(int)\<close>; a dictionary keeps its keys in the order of
  their first insertion, so it is an association list here.
\<close>

fun count_incr :: "string \<Rightarrow> (string \<times> nat) list \<Rightarrow> (string \<times> nat) list" where
  "count_incr k [] = [(k, 1)]"
| "count_incr k ((k', n) # m) =
     (if k' = k then (k', n + 1) # m else (k', n) # count_incr k m)"

definition count_value :: "string \<Rightarrow> bool \<Rightarrow> csv_row \<Rightarrow> (string \<times> nat) list \<Rightarrow> (string \<times> nat) list" where
  "count_value column keep_numbers record value_counts =
     (let v = row_get record column
      in if truthy v then count_incr (normalize_text v (\<not> keep_numbers)) value_counts
         else value_counts)"

text \<open>
  The inner loop that looks for the original value. It returns the first 60 characters
  of the value of the first record whose normalized value is the given one;
  \<open>orig_value[:60]\<close> raises \<open>TypeError\<close> on \<open>None\<close>.
\<close>

fun find_original :: "csv_row list \<Rightarrow> string \<Rightarrow> bool \<Rightarrow> string \<Rightarrow> error + string option" where
  "find_original [] column keep_numbers v = Inr None"
| "find_original (record # rest) column keep_numbers v =
     (let orig_value = row_get record column
      in if normalize_text orig_value (\<not> keep_numbers) = v then
           (case orig_value of
              PyNone \<Rightarrow> Inl TypeError
            | Str s \<Rightarrow> Inr (Some (take 60 s)))
         else find_original rest column keep_numbers v)"

text \<open>
  An entry of the returned list is the text \<open>'<orig_value[:60]>...' (<count> times)\<close>;
  it is kept here as the pair of the two values the text is formatted from.
\<close>

fun report_duplicates ::
  "csv_row list \<Rightarrow> string \<Rightarrow> bool \<Rightarrow> (string \<times> nat) list \<Rightarrow> (string \<times> nat) list
     \<Rightarrow> error + (string \<times> nat) list" where
  "report_duplicates records column keep_numbers [] duplicates = Inr duplicates"
| "report_duplicates records column keep_numbers ((v, count) # rest) duplicates =
     (if count > 1 then
        (case find_original records column keep_numbers v of
           Inl e \<Rightarrow> Inl e
         | Inr None \<Rightarrow> report_duplicates records column keep_numbers rest duplicates
         | Inr (Some s) \<Rightarrow>
             report_duplicates records column keep_numbers rest (duplicates @ [(s, count)]))
      else report_duplicates records column keep_numbers rest duplicates)"

definition check_duplicates_in_csv ::
  "csv_row list \<Rightarrow> string \<Rightarrow> bool \<Rightarrow> error + (string \<times> nat) list" where
  "check_duplicates_in_csv records column keep_numbers =
     report_duplicates records column keep_numbers
       (fold (count_value column keep_numbers) records []) []"

section \<open>MatchEngine\<close>

text \<open>
  \<open>pdf_files\<close> is a dictionary from file name to path, given as the list of its items
  in insertion order. \<open>pdf_normalized_map\<close> maps a normalized name to the list of the
  files that have it, in the order of first insertion of each normalized name.
\<close>

type_synonym pdf_map = "(string \<times> (string \<times> path) list) list"

fun group_append :: "string \<Rightarrow> string \<times> path \<Rightarrow> pdf_map \<Rightarrow> pdf_map" where
  "group_append k v [] = [(k, [v])]"
| "group_append k v ((k', vs) # m) =
     (if k' = k then (k', vs @ [v]) # m else (k', vs) # group_append k v m)"

definition pdf_normalized :: "bool \<Rightarrow> bool \<Rightarrow> bool \<Rightarrow> string \<Rightarrow> string" where
  "pdf_normalized use_doi_matching use_special_encoding has_year_pattern pdf_name =
     (if use_doi_matching then
        normalize_text (Str (extract_doi_from_pdf_name pdf_name)) False
      else
        (let processed_name =
               (if use_special_encoding then remove_isr_encoding pdf_name else pdf_name);
             title_part = extract_title_from_pdf_name processed_name has_year_pattern
         in normalize_text (Str title_part) True))"

definition pdf_normalized_map ::
  "bool \<Rightarrow> bool \<Rightarrow> bool \<Rightarrow> (string \<times> path) list \<Rightarrow> pdf_map" where
  "pdf_normalized_map use_doi_matching use_special_encoding has_year_pattern pdf_files =
     fold (\<lambda>(pdf_name, pdf_path).
             group_append
               (pdf_normalized use_doi_matching use_special_encoding has_year_pattern pdf_name)
               (pdf_name, pdf_path))
       pdf_files []"

text \<open>The loop over the items of \<open>pdf_normalized_map\<close> that fills \<open>matching_pdfs\<close>.\<close>

fun matching_pdfs :: "pdf_map \<Rightarrow> string \<Rightarrow> path list \<Rightarrow> path list" where
  "matching_pdfs [] record_normalized acc = acc"
| "matching_pdfs ((pdf_norm, pdf_list) # rest) record_normalized acc =
     matching_pdfs rest record_normalized
       (if pdf_norm \<noteq> [] \<and> prefix pdf_norm record_normalized
        then acc @ map snd pdf_list else acc)"

record match_result =
  matched :: "nat \<rightharpoonup> path"
  unmatched :: "nat list"
  multi_matched :: "(nat \<times> path list) list"

definition match_record ::
  "pdf_map \<Rightarrow> string \<Rightarrow> bool \<Rightarrow> nat \<times> csv_row \<Rightarrow> match_result \<Rightarrow> match_result" where
  "match_record pmap match_column use_doi_matching ir st =
     (let idx = fst ir;
          column_value = row_get (snd ir) match_column
      in if \<not> truthy column_value then st\<lparr>unmatched := unmatched st @ [idx]\<rparr>
         else
           (let record_normalized = normalize_text column_value (\<not> use_doi_matching);
                mp = matching_pdfs pmap record_normalized []
            in if length mp = 0 then st\<lparr>unmatched := unmatched st @ [idx]\<rparr>
               else if length mp = 1 then st\<lparr>matched := (matched st)(idx \<mapsto> mp ! 0)\<rparr>
               else st\<lparr>multi_matched := multi_matched st @ [(idx, mp)]\<rparr>))"

definition match_pdfs_to_records ::
  "(string \<times> path) list \<Rightarrow> csv_row list \<Rightarrow> string \<Rightarrow> bool \<Rightarrow> bool \<Rightarrow> bool \<Rightarrow> match_result" where
  "match_pdfs_to_records pdf_files records match_column use_doi_matching
       use_special_encoding has_year_pattern =
     fold (match_record
             (pdf_normalized_map use_doi_matching use_special_encoding has_year_pattern pdf_files)
             match_column use_doi_matching)
       (enumerate 0 records)
       \<lparr>matched = Map.empty, unmatched = [], multi_matched = []\<rparr>"

section \<open>ResultPartitioner\<close>

fun save_unmatched_csv :: "csv_row list \<Rightarrow> nat list \<Rightarrow> string \<Rightarrow> error + csv_row list" where
  "save_unmatched_csv records [] reason = Inr []"
| "save_unmatched_csv records (idx # rest) reason =
     (if idx < length records then
        (case save_unmatched_csv records rest reason of
           Inl e \<Rightarrow> Inl e
         | Inr out \<Rightarrow> Inr ((records ! idx)(''Unmatch_Reason'' \<mapsto> Str reason) # out))
      else Inl IndexError)"

text \<open>
  The reason \<open>process_journal\<close> passes to \<open>save_unmatched_csv\<close>. The literal of the
  source is Chinese for "no matching PDF file found"; it is written here as the bytes
  of its UTF-8 form.
\<close>

definition unmatch_reason :: string where
  "unmatch_reason =
     [CHR 0xE6, CHR 0x9C, CHR 0xAA, CHR 0xE6, CHR 0x89, CHR 0xBE, CHR 0xE5, CHR 0x88,
      CHR 0xB0, CHR 0xE5, CHR 0x8C, CHR 0xB9, CHR 0xE9, CHR 0x85, CHR 0x8D, CHR 0xE7,
      CHR 0x9A, CHR 0x84, CHR 0x20, CHR 0x50, CHR 0x44, CHR 0x46, CHR 0x20, CHR 0xE6,
      CHR 0x96, CHR 0x87, CHR 0xE4, CHR 0xBB, CHR 0xB6]"

text \<open>
  The unmatched table \<open>process_journal\<close> writes for one journal, from the point where
  the records, the files and the journal's pattern are known: \<open>None\<close> when it writes
  none (no PDF file at all, or no unmatched record). The check of the files for
  duplicates cannot raise and only feeds the log and the prompt, so it is left out; the
  check of the column can raise, and then nothing is written.
\<close>

definition process_journal_unmatched ::
  "(string \<times> path) list \<Rightarrow> csv_row list \<Rightarrow> bool \<Rightarrow> bool \<Rightarrow> bool \<Rightarrow> error + csv_row list option" where
  "process_journal_unmatched pdf_files records use_doi use_special has_year =
     (if pdf_files = [] then Inr None
      else
        (let match_column = (if use_doi then ''DOI'' else ''Title'');
             keep_numbers = use_doi
         in case check_duplicates_in_csv records match_column keep_numbers of
              Inl e \<Rightarrow> Inl e
            | Inr csv_dups \<Rightarrow>
                (let res = match_pdfs_to_records pdf_files records match_column use_doi
                             use_special has_year
                 in if unmatched res \<noteq> [] then
                      (case save_unmatched_csv records (unmatched res) unmatch_reason of
                         Inl e \<Rightarrow> Inl e
                       | Inr rows \<Rightarrow> Inr (Some rows))
                    else Inr None)))"

section \<open>Aggregator\<close>

definition generate_doi_url :: "pyval \<Rightarrow> string" where
  "generate_doi_url doi =
     (case doi of
        PyNone \<Rightarrow> []
      | Str d \<Rightarrow>
          if d = [] \<or> py_strip d = [] then []
          else (let d' = py_strip d
                in if prefix ''http'' d' then d' else ''https://doi.org/'' @ d'))"

definition in_keys :: "pyval \<Rightarrow> string set \<Rightarrow> bool" where
  \<comment> \<open>\<open>key in exclude_keys\<close>, for a set of \<open>str\<close>\<close>
  "in_keys key keys = (case key of PyNone \<Rightarrow> False | Str s \<Rightarrow> s \<in> keys)"

definition journal_of_stem :: "string \<Rightarrow> string" where
  \<comment> \<open>\<open>csv_file.stem.split('_')[0]\<close>\<close>
  "journal_of_stem stem = takeWhile (\<lambda>c. c \<noteq> CHR ''_'') stem"

definition annotate_row :: "bool \<Rightarrow> bool \<Rightarrow> string \<Rightarrow> csv_row \<Rightarrow> csv_row" where
  "annotate_row add_journal_column add_doi_link journal_name row =
     (let row1 = (if add_journal_column then row(''Journal'' \<mapsto> Str journal_name) else row)
      in if add_doi_link
         then row1(''DOI_Download_Link'' \<mapsto> Str (generate_doi_url (row_get row1 ''DOI'')))
         else row1)"

record merge_state =
  all_records :: "csv_row list"
  seen_keys :: "pyval set"

definition merge_row ::
  "bool \<Rightarrow> bool \<Rightarrow> bool \<Rightarrow> string \<Rightarrow> string set \<Rightarrow> string \<Rightarrow> csv_row \<Rightarrow> merge_state \<Rightarrow> merge_state" where
  "merge_row add_journal_column add_doi_link deduplicate dedup_key exclude_keys
       journal_name row st =
     (let key = row_get row dedup_key
      in if in_keys key exclude_keys then st
         else if deduplicate \<and> key \<in> seen_keys st then st
         else
           (let st1 = (if deduplicate then st\<lparr>seen_keys := insert key (seen_keys st)\<rparr> else st)
            in st1\<lparr>all_records :=
                     all_records st1 @
                       [annotate_row add_journal_column add_doi_link journal_name row]\<rparr>))"

text \<open>
  \<open>csv_files\<close> is the sorted listing of the input directory, each file given by its
  stem and its rows. The result is \<open>all_records\<close>, the rows handed to the writer.
\<close>

definition merge_csv_files ::
  "(string \<times> csv_row list) list \<Rightarrow> bool \<Rightarrow> bool \<Rightarrow> bool \<Rightarrow> string \<Rightarrow> string set \<Rightarrow> csv_row list" where
  "merge_csv_files csv_files add_journal_column add_doi_link deduplicate dedup_key exclude_keys =
     all_records
       (fold (\<lambda>(stem, rows).
                fold (merge_row add_journal_column add_doi_link deduplicate dedup_key
                        exclude_keys (journal_of_stem stem))
                  rows)
          csv_files
          \<lparr>all_records = [], seen_keys = {}\<rparr>)"

text \<open>The call of \<open>main\<close> that merges the unmatched tables of all journals.\<close>

definition merge_unmatched :: "(string \<times> csv_row list) list \<Rightarrow> string set \<Rightarrow> csv_row list" where
  "merge_unmatched csv_files matched_dois =
     merge_csv_files csv_files False True True ''DOI'' matched_dois"

section \<open>Derived notions used in the statements\<close>

text \<open>
  The candidate files of one record: the value of \<open>matching_pdfs\<close> when the loop over
  \<open>pdf_normalized_map\<close> ends, and the empty list for a record that is skipped because
  its value in the match column is missing or empty.
\<close>

definition row_candidates :: "pdf_map \<Rightarrow> string \<Rightarrow> bool \<Rightarrow> csv_row \<Rightarrow> path list" where
  "row_candidates pmap match_column use_doi_matching record =
     (if truthy (row_get record match_column)
      then matching_pdfs pmap
             (normalize_text (row_get record match_column) (\<not> use_doi_matching)) []
      else [])"

text \<open>
  All rows the merge reads, in the order it reads them, each with the journal name
  taken from the stem of its file.
\<close>

definition tagged_rows :: "(string \<times> csv_row list) list \<Rightarrow> (string \<times> csv_row) list" where
  "tagged_rows csv_files =
     concat (map (\<lambda>(stem, rows). map (Pair (journal_of_stem stem)) rows) csv_files)"

section \<open>Lemmas on the search for the year\<close>

lemma re_search_Some_iff:
  "re_search here s = Some i \<longleftrightarrow>
     i \<le> length s \<and> here (drop i s) \<and> (\<forall>j<i. \<not> here (drop j s))"
proof (induction s arbitrary: i)
  case Nil
  then show ?case by auto
next
  case (Cons c cs)
  show ?case
  proof (cases "here (c # cs)")
    case True
    have "i = 0 \<longleftrightarrow> (\<forall>j<i. \<not> here (drop j (c # cs)))"
      using True by (cases i) auto
    with True show ?thesis by auto
  next
    case False
    show ?thesis
    proof (cases i)
      case 0
      with False show ?thesis by simp
    next
      case (Suc n)
      have "(\<forall>j<Suc n. \<not> here (drop j (c # cs))) \<longleftrightarrow> (\<forall>j<n. \<not> here (drop j cs))"
      proof
        assume a: "\<forall>j<Suc n. \<not> here (drop j (c # cs))"
        show "\<forall>j<n. \<not> here (drop j cs)"
        proof (intro allI impI)
          fix j assume "j < n"
          then have "\<not> here (drop (Suc j) (c # cs))" using a by blast
          then show "\<not> here (drop j cs)" by simp
        qed
      next
        assume a: "\<forall>j<n. \<not> here (drop j cs)"
        show "\<forall>j<Suc n. \<not> here (drop j (c # cs))"
        proof (intro allI impI)
          fix j assume j: "j < Suc n"
          show "\<not> here (drop j (c # cs))"
          proof (cases j)
            case 0
            with False show ?thesis by simp
          next
            case (Suc m)
            with j a show ?thesis by simp
          qed
        qed
      qed
      with False Suc Cons.IH [of n] show ?thesis by auto
    qed
  qed
qed

lemma re_search_None_iff:
  "re_search here s = None \<longleftrightarrow> (\<forall>j\<le>length s. \<not> here (drop j s))"
proof
  assume n: "re_search here s = None"
  show "\<forall>j\<le>length s. \<not> here (drop j s)"
  proof (rule ccontr)
    assume "\<not> (\<forall>j\<le>length s. \<not> here (drop j s))"
    then have ex: "\<exists>j. j \<le> length s \<and> here (drop j s)" by blast
    define i where "i = (LEAST j. j \<le> length s \<and> here (drop j s))"
    have i: "i \<le> length s \<and> here (drop i s)"
      unfolding i_def using ex by (rule LeastI_ex)
    have "\<forall>j<i. \<not> here (drop j s)"
    proof (intro allI impI notI)
      fix j assume j: "j < i" and h: "here (drop j s)"
      from j i have "j \<le> length s" by simp
      with h have "i \<le> j" unfolding i_def by (intro Least_le) simp
      with j show False by simp
    qed
    with i have "re_search here s = Some i" by (simp add: re_search_Some_iff)
    with n show False by simp
  qed
next
  assume a: "\<forall>j\<le>length s. \<not> here (drop j s)"
  show "re_search here s = None"
  proof (cases "re_search here s")
    case None
    then show ?thesis .
  next
    case (Some i)
    then have "i \<le> length s \<and> here (drop i s)" by (simp add: re_search_Some_iff)
    with a show ?thesis by blast
  qed
qed

lemma year_end_here_iff:
  "year_end_here t \<longleftrightarrow>
     (\<exists>a b c d. is_digit a \<and> is_digit b \<and> is_digit c \<and> is_digit d \<and>
        (t = [CHR ''_'', a, b, c, d] \<or> t = [CHR ''_'', a, b, c, d, CHR 0x0A]))"
  by (cases t rule: year_end_here.cases) auto

lemma year_mid_here_nonempty: "year_mid_here t \<Longrightarrow> t \<noteq> []"
  by auto

text \<open>
  What \<open>extract_title_from_pdf_name\<close> returns, case by case; the last case, where the
  name comes back unchanged, needs a name that does not end in a newline.
\<close>

lemma extract_title_from_pdf_name_cases:
  "extract_title_from_pdf_name s False = s"
  "year_mid_here (drop i s) \<Longrightarrow> \<forall>j<i. \<not> year_mid_here (drop j s) \<Longrightarrow>
     extract_title_from_pdf_name s True = take i s"
  "\<forall>j. \<not> year_mid_here (drop j s) \<Longrightarrow> s = p @ [CHR ''_'', a, b, c, d] \<Longrightarrow>
     is_digit a \<Longrightarrow> is_digit b \<Longrightarrow> is_digit c \<Longrightarrow> is_digit d \<Longrightarrow>
     extract_title_from_pdf_name s True = p"
  "\<forall>j. \<not> year_mid_here (drop j s) \<Longrightarrow>
     \<not> (\<exists>p a b c d. s = p @ [CHR ''_'', a, b, c, d] \<and>
           is_digit a \<and> is_digit b \<and> is_digit c \<and> is_digit d) \<Longrightarrow>
     s = [] \<or> last s \<noteq> CHR 0x0A \<Longrightarrow>
     extract_title_from_pdf_name s True = s"
proof -
  show "extract_title_from_pdf_name s False = s"
    by (simp add: extract_title_from_pdf_name_def)
next
  assume h: "year_mid_here (drop i s)" and l: "\<forall>j<i. \<not> year_mid_here (drop j s)"
  from h have "drop i s \<noteq> []" by (rule year_mid_here_nonempty)
  then have "i \<le> length s" by simp
  with h l have "re_search year_mid_here s = Some i" by (simp add: re_search_Some_iff)
  then show "extract_title_from_pdf_name s True = take i s"
    by (simp add: extract_title_from_pdf_name_def)
next
  assume n: "\<forall>j. \<not> year_mid_here (drop j s)" and s: "s = p @ [CHR ''_'', a, b, c, d]"
    and dg: "is_digit a" "is_digit b" "is_digit c" "is_digit d"
  from n have m: "re_search year_mid_here s = None" by (simp add: re_search_None_iff)
  have nl: "\<not> is_digit (CHR 0x0A)" by (simp add: is_digit_def)
  have here: "year_end_here (drop (length p) s)"
    using dg by (simp add: s)
  have before: "\<not> year_end_here (drop j s)" if j: "j < length p" for j
  proof
    assume "year_end_here (drop j s)"
    then obtain a' b' c' d' where
      t: "drop j s = [CHR ''_'', a', b', c', d'] \<or> drop j s = [CHR ''_'', a', b', c', d', CHR 0x0A]"
      unfolding year_end_here_iff by blast
    have len: "length (drop j s) = length p + 5 - j" by (simp add: s)
    from t show False
    proof
      assume "drop j s = [CHR ''_'', a', b', c', d']"
      then have "length (drop j s) = 5" by simp
      with len j show False by simp
    next
      assume e: "drop j s = [CHR ''_'', a', b', c', d', CHR 0x0A]"
      have "j < length s" using j by (simp add: s)
      then have "last (drop j s) = last s" by simp
      with e have "last s = CHR 0x0A" by simp
      moreover have "last s = d" by (simp add: s)
      ultimately show False using dg(4) nl by simp
    qed
  qed
  have "re_search year_end_here s = Some (length p)"
    unfolding re_search_Some_iff using here before by (simp add: s)
  with m show "extract_title_from_pdf_name s True = p"
    by (simp add: extract_title_from_pdf_name_def s)
next
  assume n: "\<forall>j. \<not> year_mid_here (drop j s)"
    and ne: "\<not> (\<exists>p a b c d. s = p @ [CHR ''_'', a, b, c, d] \<and>
           is_digit a \<and> is_digit b \<and> is_digit c \<and> is_digit d)"
    and nl: "s = [] \<or> last s \<noteq> CHR 0x0A"
  from n have m: "re_search year_mid_here s = None" by (simp add: re_search_None_iff)
  have "\<not> year_end_here (drop j s)" for j
  proof
    assume "year_end_here (drop j s)"
    then obtain a b c d where dg: "is_digit a" "is_digit b" "is_digit c" "is_digit d"
      and t: "drop j s = [CHR ''_'', a, b, c, d] \<or> drop j s = [CHR ''_'', a, b, c, d, CHR 0x0A]"
      unfolding year_end_here_iff by blast
    from t show False
    proof
      assume e: "drop j s = [CHR ''_'', a, b, c, d]"
      have "s = take j s @ drop j s" by simp
      then have "s = take j s @ [CHR ''_'', a, b, c, d]" unfolding e .
      with ne dg show False by blast
    next
      assume e: "drop j s = [CHR ''_'', a, b, c, d, CHR 0x0A]"
      then have "drop j s \<noteq> []" by simp
      then have j: "j < length s" by simp
      then have "last (drop j s) = last s" by simp
      with e have "last s = CHR 0x0A" by simp
      moreover from j have "s \<noteq> []" by auto
      ultimately show False using nl by simp
    qed
  qed
  then have "re_search year_end_here s = None" by (simp add: re_search_None_iff)
  with m show "extract_title_from_pdf_name s True = s"
    by (simp add: extract_title_from_pdf_name_def)
qed

section \<open>Lemmas on the duplicate detector\<close>

text \<open>The counts of the first loop are those of the records with a non-empty value.\<close>

lemma value_counts_skip_empty:
  "fold (count_value column keep_numbers) records value_counts =
   fold (count_value column keep_numbers)
     (filter (\<lambda>record. truthy (row_get record column)) records) value_counts"
  by (induction records arbitrary: value_counts) (simp_all add: count_value_def)

section \<open>Properties of the filename decoder\<close>

text \<open>
  C8. For every file name, \<open>extract_doi_from_pdf_name\<close> returns \<open>10.1111/\<close> followed by
  the name exactly when the name starts with \<open>isj.\<close> or with \<open>j.1365-2575\<close>; a name that
  starts with \<open>10.\<close> comes back unchanged, and so does every other name.
\<close>

theorem extract_doi_from_pdf_name_cases:
  "(prefix ''isj.'' n \<or> prefix ''j.1365-2575'' n
      \<longrightarrow> extract_doi_from_pdf_name n = ''10.1111/'' @ n) \<and>
   (extract_doi_from_pdf_name n = ''10.1111/'' @ n
      \<longrightarrow> prefix ''isj.'' n \<or> prefix ''j.1365-2575'' n) \<and>
   (prefix ''10.'' n \<longrightarrow> extract_doi_from_pdf_name n = n) \<and>
   (\<not> prefix ''isj.'' n \<and> \<not> prefix ''j.1365-2575'' n \<longrightarrow> extract_doi_from_pdf_name n = n)"
proof -
  have a: "prefix ''10.'' n \<Longrightarrow> \<not> prefix ''isj.'' n \<and> \<not> prefix ''j.1365-2575'' n"
    by (auto simp: prefix_def)
  show ?thesis
    using a by (auto simp: extract_doi_from_pdf_name_def)
qed

theorem extract_doi_from_pdf_name_cases_witness:
  "prefix ''isj.'' ''isj.12026'' \<and>
   extract_doi_from_pdf_name ''isj.12026'' = ''10.1111/isj.12026'' \<and>
   prefix ''j.1365-2575'' ''j.1365-2575.2006.00208.x'' \<and>
   extract_doi_from_pdf_name ''j.1365-2575.2006.00208.x'' = ''10.1111/j.1365-2575.2006.00208.x'' \<and>
   prefix ''10.'' ''10.1000/abc'' \<and>
   extract_doi_from_pdf_name ''10.1000/abc'' = ''10.1000/abc'' \<and>
   \<not> prefix ''isj.'' ''paper'' \<and> \<not> prefix ''j.1365-2575'' ''paper'' \<and>
   extract_doi_from_pdf_name ''paper'' = ''paper''"
  using extract_doi_from_pdf_name_cases [of "''isj.12026''"]
    extract_doi_from_pdf_name_cases [of "''j.1365-2575.2006.00208.x''"]
    extract_doi_from_pdf_name_cases [of "''10.1000/abc''"]
    extract_doi_from_pdf_name_cases [of "''paper''"]
  by simp

text \<open>
  C7. On the file name \<open>a_2021\<close> followed by a newline, with the year pattern enabled,
  \<open>extract_title_from_pdf_name\<close> returns \<open>a\<close>. The name holds no run \<open>_dddd_\<close> and does
  not end with a run \<open>_dddd\<close>, so the stated behaviour is to return it unchanged; the
  \<open>$\<close> of the second pattern also matches before a final newline.
\<close>

theorem extract_title_from_pdf_name_final_newline:
  "extract_title_from_pdf_name (''a_2021'' @ [CHR 0x0A]) True = ''a'' \<and>
   re_search year_mid_here (''a_2021'' @ [CHR 0x0A]) = None \<and>
   \<not> suffix ''_2021'' (''a_2021'' @ [CHR 0x0A])"
  by (simp add: extract_title_from_pdf_name_def is_digit_def suffix_def)

section \<open>Properties of the duplicate detector\<close>

text \<open>
  C9. Three records with the titles \<open>""\<close>, \<open>"123"\<close> and \<open>"456"\<close>, digits removed: the
  two non-empty titles normalize to the empty text and form one group of two. The
  report names the empty title of the first record as the original value of that group,
  while without the first record it names \<open>123\<close>; with \<open>None\<close> in place of the empty
  title the check raises \<open>TypeError\<close>.
\<close>

theorem check_duplicates_in_csv_empty_sample:
  "check_duplicates_in_csv
     [[''Title'' \<mapsto> Str ''''], [''Title'' \<mapsto> Str ''123''], [''Title'' \<mapsto> Str ''456'']]
     ''Title'' False = Inr [('''', 2)] \<and>
   check_duplicates_in_csv
     [[''Title'' \<mapsto> Str ''123''], [''Title'' \<mapsto> Str ''456'']]
     ''Title'' False = Inr [(''123'', 2)] \<and>
   check_duplicates_in_csv
     [[''Title'' \<mapsto> PyNone], [''Title'' \<mapsto> Str ''123''], [''Title'' \<mapsto> Str ''456'']]
     ''Title'' False = Inl TypeError"
  by code_simp

section \<open>Lemmas on the match engine\<close>

lemma map_of_group_append:
  "map_of (group_append k v m) =
     (map_of m)(k \<mapsto> (case map_of m k of None \<Rightarrow> [v] | Some vs \<Rightarrow> vs @ [v]))"
  by (induction k v m rule: group_append.induct) (auto simp: fun_eq_iff)

lemma keys_group_append: "fst ` set (group_append k v m) = insert k (fst ` set m)"
  by (induction k v m rule: group_append.induct) auto

lemma distinct_group_append:
  "distinct (map fst m) \<Longrightarrow> distinct (map fst (group_append k v m))"
  by (induction k v m rule: group_append.induct) (auto simp: keys_group_append)

lemma distinct_fold_group_append:
  "distinct (map fst m) \<Longrightarrow>
   distinct (map fst (fold (\<lambda>(n, p). group_append (kf n) (n, p)) fs m))"
  by (induction fs arbitrary: m) (auto simp: distinct_group_append)

lemma map_of_fold_group_append:
  "map_of (fold (\<lambda>(n, p). group_append (kf n) (n, p)) fs m) k =
     (if filter (\<lambda>x. kf (fst x) = k) fs = [] then map_of m k
      else Some ((case map_of m k of None \<Rightarrow> [] | Some vs \<Rightarrow> vs) @
                 filter (\<lambda>x. kf (fst x) = k) fs))"
proof (induction fs arbitrary: m)
  case Nil
  then show ?case by simp
next
  case (Cons f fs)
  obtain n p where f: "f = (n, p)" by (cases f)
  show ?case
    by (simp add: f Cons.IH map_of_group_append split: option.splits)
qed

lemma pdf_normalized_map_entry:
  "(k, l) \<in> set (pdf_normalized_map ud se hy files) \<longleftrightarrow>
     l \<noteq> [] \<and> l = filter (\<lambda>x. pdf_normalized ud se hy (fst x) = k) files"
proof -
  have d: "distinct (map fst (pdf_normalized_map ud se hy files))"
    unfolding pdf_normalized_map_def by (rule distinct_fold_group_append) simp
  have "(k, l) \<in> set (pdf_normalized_map ud se hy files) \<longleftrightarrow>
        map_of (pdf_normalized_map ud se hy files) k = Some l"
    using d by simp
  also have "\<dots> \<longleftrightarrow> l \<noteq> [] \<and> l = filter (\<lambda>x. pdf_normalized ud se hy (fst x) = k) files"
    unfolding pdf_normalized_map_def by (auto simp: map_of_fold_group_append)
  finally show ?thesis .
qed

lemma matching_pdfs_concat:
  "matching_pdfs pmap rn acc =
     acc @ concat (map (\<lambda>(pn, pl). if pn \<noteq> [] \<and> prefix pn rn then map snd pl else []) pmap)"
  by (induction pmap rn acc rule: matching_pdfs.induct) auto

lemma in_matching_pdfs_iff:
  "p \<in> set (matching_pdfs pmap rn []) \<longleftrightarrow>
     (\<exists>k l. (k, l) \<in> set pmap \<and> k \<noteq> [] \<and> prefix k rn \<and> p \<in> snd ` set l)"
proof -
  have "p \<in> set (concat (map (\<lambda>(pn, pl). if pn \<noteq> [] \<and> prefix pn rn then map snd pl else []) pmap))
        \<longleftrightarrow> (\<exists>k l. (k, l) \<in> set pmap \<and> k \<noteq> [] \<and> prefix k rn \<and> p \<in> snd ` set l)"
  proof (induction pmap)
    case Nil
    then show ?case by simp
  next
    case (Cons e pmap)
    obtain k l where e: "e = (k, l)" by (cases e)
    show ?case
      unfolding e using Cons.IH by (simp, blast)
  qed
  then show ?thesis by (simp add: matching_pdfs_concat)
qed

lemma set_matching_pdfs:
  "p \<in> set (matching_pdfs (pdf_normalized_map ud se hy files) rn []) \<longleftrightarrow>
     (\<exists>name. (name, p) \<in> set files \<and> pdf_normalized ud se hy name \<noteq> [] \<and>
             prefix (pdf_normalized ud se hy name) rn)"
  (is "?L \<longleftrightarrow> ?R")
proof
  assume ?L
  then obtain k l where kl: "(k, l) \<in> set (pdf_normalized_map ud se hy files)"
    and c: "k \<noteq> []" "prefix k rn" and p: "p \<in> snd ` set l"
    unfolding in_matching_pdfs_iff by blast
  from p obtain name where np: "(name, p) \<in> set l" by auto
  from kl have l: "l = filter (\<lambda>x. pdf_normalized ud se hy (fst x) = k) files"
    by (simp add: pdf_normalized_map_entry)
  from np have "(name, p) \<in> set files \<and> pdf_normalized ud se hy name = k"
    unfolding l by simp
  with c show ?R by blast
next
  assume ?R
  then obtain name where m: "(name, p) \<in> set files"
    and c: "pdf_normalized ud se hy name \<noteq> []" "prefix (pdf_normalized ud se hy name) rn"
    by blast
  define k where "k = pdf_normalized ud se hy name"
  define l where "l = filter (\<lambda>x. pdf_normalized ud se hy (fst x) = k) files"
  from m have inl: "(name, p) \<in> set l" by (simp add: l_def k_def)
  then have ne: "l \<noteq> []" by (cases l) simp_all
  have "(k, l) \<in> set (pdf_normalized_map ud se hy files)"
    unfolding pdf_normalized_map_entry using ne l_def by simp
  moreover from inl have "p \<in> snd ` set l" by force
  ultimately show ?L
    unfolding in_matching_pdfs_iff using c k_def by blast
qed

lemma length_matching_pdfs_ge:
  assumes "(k, l) \<in> set pmap" "k \<noteq> []" "prefix k rn"
  shows "length l \<le> length (matching_pdfs pmap rn [])"
proof -
  have "length l \<le>
        length (concat (map (\<lambda>(pn, pl). if pn \<noteq> [] \<and> prefix pn rn then map snd pl else []) pmap))"
    using assms by (induction pmap) (auto simp: length_concat)
  then show ?thesis by (simp add: matching_pdfs_concat)
qed

lemma map_of_enumerate:
  "map_of (enumerate n xs) i = (if n \<le> i \<and> i < n + length xs then Some (xs ! (i - n)) else None)"
proof (cases "n \<le> i \<and> i < n + length xs")
  case True
  then have "(i, xs ! (i - n)) \<in> set (enumerate n xs)"
    by (simp add: in_set_enumerate_eq add.commute)
  then have "map_of (enumerate n xs) i = Some (xs ! (i - n))"
    by (intro map_of_is_SomeI) simp_all
  with True show ?thesis by simp
next
  case False
  then have "i \<notin> fst ` set (enumerate n xs)"
    by (auto simp: in_set_enumerate_eq)
  then have "map_of (enumerate n xs) i = None"
    by (simp add: map_of_eq_None_iff)
  with False show ?thesis by simp
qed

lemma filter_index_enumerate_from:
  "filter (\<lambda>ir. fst ir = idx) (enumerate n xs) =
     (if n \<le> idx \<and> idx < n + length xs then [(idx, xs ! (idx - n))] else [])"
proof (induction xs arbitrary: n)
  case Nil
  then show ?case by simp
next
  case (Cons x xs)
  show ?case
  proof (cases "idx = n")
    case True
    with Cons.IH [of "Suc n"] show ?thesis by simp
  next
    case False
    then have "(x # xs) ! (idx - n) = xs ! (idx - Suc n)" if "n \<le> idx"
      using that by (simp add: nth_Cons')
    with False Cons.IH [of "Suc n"] show ?thesis by auto
  qed
qed

lemma filter_index_enumerate:
  "idx < length records \<Longrightarrow>
   filter (\<lambda>ir. fst ir = idx) (enumerate 0 records) = [(idx, records ! idx)]"
  by (simp add: filter_index_enumerate_from)

lemma count_list_map_fst_filter:
  "count_list (map fst (filter P irs)) i =
     length (filter P (filter (\<lambda>ir. fst ir = i) irs))"
  by (induction irs) auto

lemma filter_fst_map_filter:
  "filter (\<lambda>e. fst e = i) (map (\<lambda>ir. (fst ir, g ir)) (filter P irs)) =
     map (\<lambda>ir. (fst ir, g ir)) (filter P (filter (\<lambda>ir. fst ir = i) irs))"
  by (induction irs) auto

text \<open>One step of the loop over the records, field by field.\<close>

lemma match_record_unmatched:
  "unmatched (match_record pmap mc ud ir st) =
     unmatched st @ (if row_candidates pmap mc ud (snd ir) = [] then [fst ir] else [])"
  by (simp add: match_record_def row_candidates_def Let_def)

lemma match_record_multi:
  "multi_matched (match_record pmap mc ud ir st) =
     multi_matched st @
       (if 2 \<le> length (row_candidates pmap mc ud (snd ir))
        then [(fst ir, row_candidates pmap mc ud (snd ir))] else [])"
proof -
  have "2 \<le> length c \<longleftrightarrow> length c \<noteq> 0 \<and> length c \<noteq> 1" for c :: "path list"
    by arith
  then have "2 \<le> length c \<longleftrightarrow> c \<noteq> [] \<and> length c \<noteq> 1" for c :: "path list"
    by simp
  then show ?thesis
    by (simp add: match_record_def row_candidates_def Let_def)
qed

lemma match_record_matched:
  "matched (match_record pmap mc ud ir st) =
     (if length (row_candidates pmap mc ud (snd ir)) = 1
      then (matched st)(fst ir \<mapsto> row_candidates pmap mc ud (snd ir) ! 0)
      else matched st)"
  by (simp add: match_record_def row_candidates_def Let_def)

lemma fold_match_unmatched:
  "unmatched (fold (match_record pmap mc ud) irs st) =
     unmatched st @ map fst (filter (\<lambda>ir. row_candidates pmap mc ud (snd ir) = []) irs)"
  by (induction irs arbitrary: st) (simp_all add: match_record_unmatched)

lemma fold_match_multi:
  "multi_matched (fold (match_record pmap mc ud) irs st) =
     multi_matched st @
       map (\<lambda>ir. (fst ir, row_candidates pmap mc ud (snd ir)))
         (filter (\<lambda>ir. 2 \<le> length (row_candidates pmap mc ud (snd ir))) irs)"
  by (induction irs arbitrary: st) (simp_all add: match_record_multi)

lemma fold_match_matched:
  "distinct (map fst irs) \<Longrightarrow>
   matched (fold (match_record pmap mc ud) irs st) i =
     (case map_of irs i of
        None \<Rightarrow> matched st i
      | Some r \<Rightarrow>
          if length (row_candidates pmap mc ud r) = 1
          then Some (row_candidates pmap mc ud r ! 0) else matched st i)"
proof (induction irs arbitrary: st)
  case Nil
  then show ?case by simp
next
  case (Cons ir irs)
  obtain j r where ir: "ir = (j, r)" by (cases ir)
  from Cons.prems have d: "distinct (map fst irs)" and j: "j \<notin> fst ` set irs"
    by (auto simp: ir)
  from j have n: "map_of irs j = None" by (simp add: map_of_eq_None_iff)
  show ?case
  proof (cases "i = j")
    case True
    with n Cons.IH [OF d, of "match_record pmap mc ud (j, r) st"] show ?thesis
      by (simp add: ir match_record_matched)
  next
    case False
    with Cons.IH [OF d, of "match_record pmap mc ud (j, r) st"] show ?thesis
      by (simp add: ir match_record_matched split: option.splits)
  qed
qed

text \<open>What \<open>match_pdfs_to_records\<close> returns for the record at one index.\<close>

lemma match_outcome_unmatched:
  "idx < length records \<Longrightarrow>
   count_list (unmatched (match_pdfs_to_records files records mc ud se hy)) idx =
     (if row_candidates (pdf_normalized_map ud se hy files) mc ud (records ! idx) = []
      then 1 else 0)"
  by (simp add: match_pdfs_to_records_def fold_match_unmatched count_list_map_fst_filter
      filter_index_enumerate)

lemma match_outcome_multi:
  "idx < length records \<Longrightarrow>
   filter (\<lambda>e. fst e = idx) (multi_matched (match_pdfs_to_records files records mc ud se hy)) =
     (if 2 \<le> length (row_candidates (pdf_normalized_map ud se hy files) mc ud (records ! idx))
      then [(idx, row_candidates (pdf_normalized_map ud se hy files) mc ud (records ! idx))]
      else [])"
  by (simp add: match_pdfs_to_records_def fold_match_multi filter_fst_map_filter
      filter_index_enumerate)

lemma match_outcome_matched:
  "idx < length records \<Longrightarrow>
   matched (match_pdfs_to_records files records mc ud se hy) idx =
     (if length (row_candidates (pdf_normalized_map ud se hy files) mc ud (records ! idx)) = 1
      then Some (row_candidates (pdf_normalized_map ud se hy files) mc ud (records ! idx) ! 0)
      else None)"
  by (simp add: match_pdfs_to_records_def fold_match_matched map_of_enumerate)

lemma match_outcome_out_of_range:
  "length records \<le> idx \<Longrightarrow>
   matched (match_pdfs_to_records files records mc ud se hy) idx = None \<and>
   idx \<notin> set (unmatched (match_pdfs_to_records files records mc ud se hy)) \<and>
   idx \<notin> fst ` set (multi_matched (match_pdfs_to_records files records mc ud se hy))"
  by (auto simp: match_pdfs_to_records_def fold_match_matched fold_match_unmatched
      fold_match_multi map_of_enumerate in_set_enumerate_eq)

lemma row_candidates_set:
  "p \<in> set (row_candidates (pdf_normalized_map ud se hy files) mc ud r) \<longleftrightarrow>
     (\<exists>name. (name, p) \<in> set files \<and> pdf_normalized ud se hy name \<noteq> [] \<and>
             prefix (pdf_normalized ud se hy name) (normalize_text (row_get r mc) (\<not> ud)))"
proof (cases "truthy (row_get r mc)")
  case True
  then show ?thesis by (simp add: row_candidates_def set_matching_pdfs)
next
  case False
  then have "normalize_text (row_get r mc) (\<not> ud) = []"
    by (simp add: normalize_text_def)
  with False show ?thesis by (simp add: row_candidates_def)
qed

lemma in_multi_iff:
  "(idx, ps) \<in> set mm \<longleftrightarrow> (idx, ps) \<in> set (filter (\<lambda>e. fst e = idx) mm)"
  by simp

lemma match_outcome_files:
  assumes "idx < length records"
  shows "(matched (match_pdfs_to_records files records mc ud se hy) idx = Some p \<or>
          (\<exists>ps. (idx, ps) \<in> set (multi_matched (match_pdfs_to_records files records mc ud se hy)) \<and>
                p \<in> set ps)) \<longleftrightarrow>
         p \<in> set (row_candidates (pdf_normalized_map ud se hy files) mc ud (records ! idx))"
proof -
  define c where "c = row_candidates (pdf_normalized_map ud se hy files) mc ud (records ! idx)"
  define res where "res = match_pdfs_to_records files records mc ud se hy"
  have m: "matched res idx = (if length c = 1 then Some (c ! 0) else None)"
    unfolding res_def c_def by (rule match_outcome_matched [OF assms])
  have mm: "(idx, ps) \<in> set (multi_matched res) \<longleftrightarrow> 2 \<le> length c \<and> ps = c" for ps
    unfolding res_def c_def
    by (subst in_multi_iff, subst match_outcome_multi [OF assms]) auto
  have "length c = 0 \<or> length c = 1 \<or> 2 \<le> length c"
    by arith
  then consider (zero) "c = []" | (one) "length c = 1" | (many) "2 \<le> length c"
    by auto
  then have "(matched res idx = Some p \<or> (\<exists>ps. (idx, ps) \<in> set (multi_matched res) \<and> p \<in> set ps))
        \<longleftrightarrow> p \<in> set c"
  proof cases
    case zero
    then show ?thesis by (simp add: m mm)
  next
    case one
    then obtain x where "c = [x]" by (cases c) auto
    then show ?thesis by (auto simp: m mm)
  next
    case many
    then show ?thesis by (auto simp: m mm)
  qed
  then show ?thesis unfolding res_def c_def .
qed

lemma two_members_length:
  "x \<in> set l \<Longrightarrow> y \<in> set l \<Longrightarrow> x \<noteq> y \<Longrightarrow> 2 \<le> length l"
proof -
  assume a: "x \<in> set l" "y \<in> set l" "x \<noteq> y"
  then have "{x, y} \<subseteq> set l" by simp
  then have "card {x, y} \<le> card (set l)" by (intro card_mono) simp_all
  also have "\<dots> \<le> length l" by (rule card_length)
  finally show ?thesis using a by simp
qed

lemma save_unmatched_csv_in_range:
  "\<forall>i \<in> set idxs. i < length records \<Longrightarrow>
   save_unmatched_csv records idxs reason =
     Inr (map (\<lambda>i. (records ! i)(''Unmatch_Reason'' \<mapsto> Str reason)) idxs)"
  by (induction idxs) simp_all

lemma unmatched_in_range:
  "i \<in> set (unmatched (match_pdfs_to_records files records mc ud se hy)) \<Longrightarrow> i < length records"
  using match_outcome_out_of_range [of records i files mc ud se hy] by (cases "i < length records") auto

section \<open>Properties of the match engine\<close>

text \<open>
  C1. Every record index below the number of records occurs exactly once in the result
  of \<open>match_pdfs_to_records\<close>: as a key of \<open>matched\<close>, as an element of \<open>unmatched\<close> or
  as the index of an entry of \<open>multi_matched\<close>, counted with multiplicity; so it is in
  exactly one of the three and in none of the others.
\<close>

theorem match_pdfs_to_records_exactly_one:
  "idx < length records \<Longrightarrow>
   (let res = match_pdfs_to_records pdf_files records match_column use_doi use_special has_year
    in (if idx \<in> dom (matched res) then 1 else 0) + count_list (unmatched res) idx +
         length (filter (\<lambda>e. fst e = idx) (multi_matched res)) = (1::nat) \<and>
       ((idx \<in> dom (matched res) \<and> idx \<notin> set (unmatched res) \<and>
           idx \<notin> fst ` set (multi_matched res)) \<or>
        (idx \<notin> dom (matched res) \<and> idx \<in> set (unmatched res) \<and>
           idx \<notin> fst ` set (multi_matched res)) \<or>
        (idx \<notin> dom (matched res) \<and> idx \<notin> set (unmatched res) \<and>
           idx \<in> fst ` set (multi_matched res))))"
proof -
  assume a: "idx < length records"
  define c where
    "c = row_candidates (pdf_normalized_map use_doi use_special has_year pdf_files)
           match_column use_doi (records ! idx)"
  define res where
    "res = match_pdfs_to_records pdf_files records match_column use_doi use_special has_year"
  have m: "matched res idx = (if length c = 1 then Some (c ! 0) else None)"
    unfolding res_def c_def by (rule match_outcome_matched [OF a])
  have u: "count_list (unmatched res) idx = (if c = [] then 1 else 0)"
    unfolding res_def c_def by (rule match_outcome_unmatched [OF a])
  have mm: "filter (\<lambda>e. fst e = idx) (multi_matched res) = (if 2 \<le> length c then [(idx, c)] else [])"
    unfolding res_def c_def by (rule match_outcome_multi [OF a])
  have d: "idx \<in> dom (matched res) \<longleftrightarrow> length c = 1"
    by (simp add: dom_def m)
  have us: "idx \<in> set (unmatched res) \<longleftrightarrow> c = []"
    using u count_list_0_iff [of "unmatched res" idx] by (auto split: if_splits)
  have ms: "idx \<in> fst ` set (multi_matched res) \<longleftrightarrow> 2 \<le> length c"
  proof -
    have "idx \<in> fst ` set (multi_matched res) \<longleftrightarrow>
          filter (\<lambda>e. fst e = idx) (multi_matched res) \<noteq> []"
      by (auto simp: filter_empty_conv)
    then show ?thesis by (simp add: mm)
  qed
  have "length c = 0 \<or> length c = 1 \<or> 2 \<le> length c"
    by arith
  then have cases: "c = [] \<or> length c = 1 \<or> 2 \<le> length c"
    by simp
  have "(if idx \<in> dom (matched res) then 1 else 0) + count_list (unmatched res) idx +
          length (filter (\<lambda>e. fst e = idx) (multi_matched res)) = (1::nat)"
    unfolding d u mm using cases by auto
  moreover have "(idx \<in> dom (matched res) \<and> idx \<notin> set (unmatched res) \<and>
           idx \<notin> fst ` set (multi_matched res)) \<or>
        (idx \<notin> dom (matched res) \<and> idx \<in> set (unmatched res) \<and>
           idx \<notin> fst ` set (multi_matched res)) \<or>
        (idx \<notin> dom (matched res) \<and> idx \<notin> set (unmatched res) \<and>
           idx \<in> fst ` set (multi_matched res))"
    unfolding d us ms using cases by auto
  ultimately show ?thesis
    unfolding res_def Let_def by simp
qed

text \<open>
  C2. A file is among the files a record is matched to (alone in \<open>matched\<close>, or in the
  record's entry of \<open>multi_matched\<close>) if and only if the file's normalized name is not
  empty and the record's normalized value starts with it.
\<close>

theorem match_iff_key_is_prefix:
  "idx < length records \<Longrightarrow>
   (let res = match_pdfs_to_records pdf_files records match_column use_doi use_special has_year;
        record_normalized = normalize_text (row_get (records ! idx) match_column) (\<not> use_doi)
    in (matched res idx = Some p \<or>
        (\<exists>ps. (idx, ps) \<in> set (multi_matched res) \<and> p \<in> set ps)) \<longleftrightarrow>
       (\<exists>name. (name, p) \<in> set pdf_files \<and>
          pdf_normalized use_doi use_special has_year name \<noteq> [] \<and>
          prefix (pdf_normalized use_doi use_special has_year name) record_normalized))"
  unfolding Let_def by (simp only: match_outcome_files row_candidates_set)

text \<open>
  C4. Two files with different names, the same non-empty normalized name, and a record
  whose normalized value starts with that name: the record has an entry in
  \<open>multi_matched\<close> that holds the paths of both files, and it is neither in \<open>matched\<close>
  nor in \<open>unmatched\<close>.
\<close>

theorem same_key_files_multi_matched:
  assumes "(n1, p1) \<in> set pdf_files" and "(n2, p2) \<in> set pdf_files" and "n1 \<noteq> n2"
    and "pdf_normalized use_doi use_special has_year n1 =
         pdf_normalized use_doi use_special has_year n2"
    and "pdf_normalized use_doi use_special has_year n1 \<noteq> []"
    and "idx < length records"
    and "prefix (pdf_normalized use_doi use_special has_year n1)
           (normalize_text (row_get (records ! idx) match_column) (\<not> use_doi))"
  shows "(let res = match_pdfs_to_records pdf_files records match_column use_doi use_special has_year
          in (\<exists>ps. (idx, ps) \<in> set (multi_matched res) \<and> p1 \<in> set ps \<and> p2 \<in> set ps) \<and>
             matched res idx = None \<and> idx \<notin> set (unmatched res))"
proof -
  define k where "k = pdf_normalized use_doi use_special has_year n1"
  define pmap where "pmap = pdf_normalized_map use_doi use_special has_year pdf_files"
  define c where "c = row_candidates pmap match_column use_doi (records ! idx)"
  define res where
    "res = match_pdfs_to_records pdf_files records match_column use_doi use_special has_year"
  define l where
    "l = filter (\<lambda>x. pdf_normalized use_doi use_special has_year (fst x) = k) pdf_files"
  define rn where "rn = normalize_text (row_get (records ! idx) match_column) (\<not> use_doi)"
  have k: "k \<noteq> []" "prefix k rn"
    using assms(5,7) by (simp_all add: k_def rn_def)
  have t: "truthy (row_get (records ! idx) match_column)"
  proof (rule ccontr)
    assume "\<not> truthy (row_get (records ! idx) match_column)"
    then have "rn = []" by (simp add: rn_def normalize_text_def)
    with k show False by simp
  qed
  have "(n1, p1) \<in> set l" "(n2, p2) \<in> set l"
    using assms(1,2,4) by (simp_all add: l_def k_def)
  moreover have "(n1, p1) \<noteq> (n2, p2)" using assms(3) by simp
  ultimately have l2: "2 \<le> length l" by (rule two_members_length)
  then have "l \<noteq> []" by auto
  then have "(k, l) \<in> set pmap"
    unfolding pmap_def pdf_normalized_map_entry by (simp add: l_def)
  then have "length l \<le> length (matching_pdfs pmap rn [])"
    using k by (rule length_matching_pdfs_ge)
  with l2 t have c2: "2 \<le> length c"
    by (simp add: c_def row_candidates_def rn_def)
  have p1: "p1 \<in> set c"
    unfolding c_def pmap_def row_candidates_set using assms(1,5,7) by blast
  have p2: "p2 \<in> set c"
    unfolding c_def pmap_def row_candidates_set using assms(2,4,5,7) by auto
  have m: "matched res idx = None"
    using c2 by (simp add: res_def match_outcome_matched [OF assms(6)] c_def [symmetric] pmap_def [symmetric])
  have "count_list (unmatched res) idx = 0"
    using c2 by (auto simp: res_def match_outcome_unmatched [OF assms(6)] c_def [symmetric] pmap_def [symmetric])
  then have u: "idx \<notin> set (unmatched res)"
    by (simp add: count_list_0_iff)
  have "filter (\<lambda>e. fst e = idx) (multi_matched res) = [(idx, c)]"
    using c2 by (simp add: res_def match_outcome_multi [OF assms(6)] c_def [symmetric] pmap_def [symmetric])
  then have "(idx, c) \<in> set (filter (\<lambda>e. fst e = idx) (multi_matched res))" by simp
  then have "(idx, c) \<in> set (multi_matched res)" by simp
  with p1 p2 m u show ?thesis
    unfolding res_def Let_def by blast
qed

theorem match_pdfs_to_records_exactly_one_witness:
  "(0::nat) < length [[''Title'' \<mapsto> Str ''Isj two''], Map.empty, [''Title'' \<mapsto> Str ''Other thing'']] \<and>
   (let res = match_pdfs_to_records
                [(''isj'', ''pdfs/isj.pdf''), (''isj_2'', ''pdfs/isj_2.pdf''), (''other'', ''pdfs/other.pdf'')]
                [[''Title'' \<mapsto> Str ''Isj two''], Map.empty, [''Title'' \<mapsto> Str ''Other thing'']]
                ''Title'' False False False
    in (if 0 \<in> dom (matched res) then 1 else 0) + count_list (unmatched res) 0 +
         length (filter (\<lambda>e. fst e = 0) (multi_matched res)) = (1::nat) \<and>
       matched res 0 = None \<and> matched res 1 = None \<and> matched res 2 = Some ''pdfs/other.pdf'' \<and>
       unmatched res = [1] \<and>
       multi_matched res = [(0, [''pdfs/isj.pdf'', ''pdfs/isj_2.pdf''])])"
proof -
  let ?records = "[[''Title'' \<mapsto> Str ''Isj two''], Map.empty, [''Title'' \<mapsto> Str ''Other thing'']]"
  let ?res = "match_pdfs_to_records
                [(''isj'', ''pdfs/isj.pdf''), (''isj_2'', ''pdfs/isj_2.pdf''), (''other'', ''pdfs/other.pdf'')]
                ?records ''Title'' False False False"
  have h: "(0::nat) < length ?records" by simp
  have e: "matched ?res 0 = None" "matched ?res 1 = None" "matched ?res 2 = Some ''pdfs/other.pdf''"
    "unmatched ?res = [1]" "multi_matched ?res = [(0, [''pdfs/isj.pdf'', ''pdfs/isj_2.pdf''])]"
    by code_simp+
  from match_pdfs_to_records_exactly_one [OF h, where match_column = "''Title''"
      and use_doi = False and use_special = False and has_year = False
      and pdf_files = "[(''isj'', ''pdfs/isj.pdf''), (''isj_2'', ''pdfs/isj_2.pdf''), (''other'', ''pdfs/other.pdf'')]"]
  have "(if 0 \<in> dom (matched ?res) then 1 else 0) + count_list (unmatched ?res) 0 +
         length (filter (\<lambda>e. fst e = 0) (multi_matched ?res)) = (1::nat)"
    unfolding Let_def by (rule conjunct1)
  with h e show ?thesis unfolding Let_def by blast
qed

theorem match_iff_key_is_prefix_witness:
  "pdf_normalized False False True ''Study of Trust'' = ''studyoftrust'' \<and>
   pdf_normalized False False True ''Study of Trust in Teams'' = ''studyoftrustinteams'' \<and>
   pdf_normalized False False True ''Trust'' = ''trust'' \<and>
   (0::nat) < length [[''Title'' \<mapsto> Str ''Study of Trust in Teams'']] \<and>
   (matched (match_pdfs_to_records [(''Study of Trust'', ''a.pdf'')]
              [[''Title'' \<mapsto> Str ''Study of Trust in Teams'']] ''Title'' False False True) 0 = Some ''a.pdf'' \<or>
    (\<exists>ps. (0, ps) \<in> set (multi_matched (match_pdfs_to_records [(''Study of Trust'', ''a.pdf'')]
              [[''Title'' \<mapsto> Str ''Study of Trust in Teams'']] ''Title'' False False True)) \<and>
          ''a.pdf'' \<in> set ps)) \<and>
   \<not> (matched (match_pdfs_to_records [(''Study of Trust in Teams'', ''b.pdf'')]
              [[''Title'' \<mapsto> Str ''Study of Trust'']] ''Title'' False False True) 0 = Some ''b.pdf'' \<or>
    (\<exists>ps. (0, ps) \<in> set (multi_matched (match_pdfs_to_records [(''Study of Trust in Teams'', ''b.pdf'')]
              [[''Title'' \<mapsto> Str ''Study of Trust'']] ''Title'' False False True)) \<and>
          ''b.pdf'' \<in> set ps)) \<and>
   \<not> (matched (match_pdfs_to_records [(''Trust'', ''c.pdf'')]
              [[''Title'' \<mapsto> Str ''Study of Trust in Teams'']] ''Title'' False False True) 0 = Some ''c.pdf'' \<or>
    (\<exists>ps. (0, ps) \<in> set (multi_matched (match_pdfs_to_records [(''Trust'', ''c.pdf'')]
              [[''Title'' \<mapsto> Str ''Study of Trust in Teams'']] ''Title'' False False True)) \<and>
          ''c.pdf'' \<in> set ps))"
proof -
  have k: "pdf_normalized False False True ''Study of Trust'' = ''studyoftrust''"
    "pdf_normalized False False True ''Study of Trust in Teams'' = ''studyoftrustinteams''"
    "pdf_normalized False False True ''Trust'' = ''trust''"
    by code_simp+
  have r: "normalize_text (row_get [''Title'' \<mapsto> Str ''Study of Trust in Teams''] ''Title'') True
             = ''studyoftrustinteams''"
    "normalize_text (row_get [''Title'' \<mapsto> Str ''Study of Trust''] ''Title'') True = ''studyoftrust''"
    by code_simp+
  have h1: "(0::nat) < length [[''Title'' \<mapsto> Str ''Study of Trust in Teams'']]" by simp
  have h2: "(0::nat) < length [[''Title'' \<mapsto> Str ''Study of Trust'']]" by simp
  have a: "matched (match_pdfs_to_records [(''Study of Trust'', ''a.pdf'')]
              [[''Title'' \<mapsto> Str ''Study of Trust in Teams'']] ''Title'' False False True) 0 = Some ''a.pdf'' \<or>
    (\<exists>ps. (0, ps) \<in> set (multi_matched (match_pdfs_to_records [(''Study of Trust'', ''a.pdf'')]
              [[''Title'' \<mapsto> Str ''Study of Trust in Teams'']] ''Title'' False False True)) \<and>
          ''a.pdf'' \<in> set ps)"
    using match_iff_key_is_prefix [OF h1, where p = "''a.pdf''" and pdf_files = "[(''Study of Trust'', ''a.pdf'')]"
        and match_column = "''Title''" and use_doi = False and use_special = False
        and has_year = True]
    by (simp add: Let_def k r)
  have b: "\<not> (matched (match_pdfs_to_records [(''Study of Trust in Teams'', ''b.pdf'')]
              [[''Title'' \<mapsto> Str ''Study of Trust'']] ''Title'' False False True) 0 = Some ''b.pdf'' \<or>
    (\<exists>ps. (0, ps) \<in> set (multi_matched (match_pdfs_to_records [(''Study of Trust in Teams'', ''b.pdf'')]
              [[''Title'' \<mapsto> Str ''Study of Trust'']] ''Title'' False False True)) \<and>
          ''b.pdf'' \<in> set ps))"
    using match_iff_key_is_prefix [OF h2, where p = "''b.pdf''" and pdf_files = "[(''Study of Trust in Teams'', ''b.pdf'')]"
        and match_column = "''Title''" and use_doi = False and use_special = False
        and has_year = True]
    by (simp add: Let_def k r)
  have c: "\<not> (matched (match_pdfs_to_records [(''Trust'', ''c.pdf'')]
              [[''Title'' \<mapsto> Str ''Study of Trust in Teams'']] ''Title'' False False True) 0 = Some ''c.pdf'' \<or>
    (\<exists>ps. (0, ps) \<in> set (multi_matched (match_pdfs_to_records [(''Trust'', ''c.pdf'')]
              [[''Title'' \<mapsto> Str ''Study of Trust in Teams'']] ''Title'' False False True)) \<and>
          ''c.pdf'' \<in> set ps))"
    using match_iff_key_is_prefix [OF h1, where p = "''c.pdf''" and pdf_files = "[(''Trust'', ''c.pdf'')]"
        and match_column = "''Title''" and use_doi = False and use_special = False
        and has_year = True]
    by (simp add: Let_def k r)
  from k h1 a b c show ?thesis by blast
qed

theorem same_key_files_multi_matched_witness:
  "(''A Study'', ''x/A Study.pdf'') \<in> set [(''A Study'', ''x/A Study.pdf''), (''a-study'', ''x/a-study.pdf'')] \<and>
   (''a-study'', ''x/a-study.pdf'') \<in> set [(''A Study'', ''x/A Study.pdf''), (''a-study'', ''x/a-study.pdf'')] \<and>
   ''A Study'' \<noteq> ''a-study'' \<and>
   pdf_normalized False False True ''A Study'' = pdf_normalized False False True ''a-study'' \<and>
   pdf_normalized False False True ''A Study'' \<noteq> [] \<and>
   (0::nat) < length [[''Title'' \<mapsto> Str ''A study of things'']] \<and>
   prefix (pdf_normalized False False True ''A Study'')
     (normalize_text (row_get ([[''Title'' \<mapsto> Str ''A study of things'']] ! 0) ''Title'') (\<not> False)) \<and>
   (let res = match_pdfs_to_records [(''A Study'', ''x/A Study.pdf''), (''a-study'', ''x/a-study.pdf'')]
                [[''Title'' \<mapsto> Str ''A study of things'']] ''Title'' False False True
    in (\<exists>ps. (0, ps) \<in> set (multi_matched res) \<and> ''x/A Study.pdf'' \<in> set ps \<and> ''x/a-study.pdf'' \<in> set ps) \<and>
       matched res 0 = None \<and> 0 \<notin> set (unmatched res))"
proof -
  let ?files = "[(''A Study'', ''x/A Study.pdf''), (''a-study'', ''x/a-study.pdf'')]"
  let ?records = "[[''Title'' \<mapsto> Str ''A study of things'']]"
  have h1: "(''A Study'', ''x/A Study.pdf'') \<in> set ?files" by simp
  have h2: "(''a-study'', ''x/a-study.pdf'') \<in> set ?files" by simp
  have h3: "''A Study'' \<noteq> ''a-study''" by simp
  have h4: "pdf_normalized False False True ''A Study'' = pdf_normalized False False True ''a-study''"
    by code_simp
  have h5: "pdf_normalized False False True ''A Study'' \<noteq> []" by code_simp
  have h6: "(0::nat) < length ?records" by simp
  have h7: "prefix (pdf_normalized False False True ''A Study'')
     (normalize_text (row_get (?records ! 0) ''Title'') (\<not> False))"
    by code_simp
  from same_key_files_multi_matched [OF h1 h2 h3 h4 h5 h6 h7] h1 h2 h3 h4 h5 h6 h7
  show ?thesis by blast
qed

text \<open>
  C3, as the code has it. A record whose value in the match column is missing or empty
  is put in \<open>unmatched\<close>, and in neither of the other two results, whatever the files
  are. When the journal has a PDF file and the check of the column for duplicates
  returns, the unmatched table of \<open>process_journal\<close> holds that record with
  \<open>Unmatch_Reason\<close> set to the one text that every row of the table gets; with no PDF
  file at all, \<open>process_journal\<close> returns before it writes a table.
\<close>

theorem empty_value_unmatched:
  assumes "idx < length records"
    and "\<not> truthy (row_get (records ! idx) match_column)"
  shows "(let res = match_pdfs_to_records pdf_files records match_column use_doi use_special has_year
          in idx \<in> set (unmatched res) \<and> matched res idx = None \<and>
             idx \<notin> fst ` set (multi_matched res)) \<and>
         (pdf_files \<noteq> [] \<and> match_column = (if use_doi then ''DOI'' else ''Title'') \<and>
          check_duplicates_in_csv records match_column use_doi = Inr csv_dups \<longrightarrow>
            (\<exists>rows. process_journal_unmatched pdf_files records use_doi use_special has_year
                       = Inr (Some rows) \<and>
                    (records ! idx)(''Unmatch_Reason'' \<mapsto> Str unmatch_reason) \<in> set rows \<and>
                    (\<forall>r \<in> set rows. r ''Unmatch_Reason'' = Some (Str unmatch_reason)))) \<and>
         (pdf_files = [] \<longrightarrow>
            process_journal_unmatched pdf_files records use_doi use_special has_year = Inr None)"
proof -
  have part1: "idx \<in> set (unmatched (match_pdfs_to_records pdf_files records mc use_doi use_special has_year)) \<and>
      matched (match_pdfs_to_records pdf_files records mc use_doi use_special has_year) idx = None \<and>
      idx \<notin> fst ` set (multi_matched (match_pdfs_to_records pdf_files records mc use_doi use_special has_year))"
    if e: "\<not> truthy (row_get (records ! idx) mc)" for mc
  proof -
    define res where "res = match_pdfs_to_records pdf_files records mc use_doi use_special has_year"
    have c: "row_candidates (pdf_normalized_map use_doi use_special has_year pdf_files) mc use_doi
               (records ! idx) = []"
      using e by (simp add: row_candidates_def)
    have "count_list (unmatched res) idx = 1"
      unfolding res_def by (simp add: match_outcome_unmatched [OF assms(1)] c)
    then have u: "idx \<in> set (unmatched res)"
      using count_list_0_iff [of "unmatched res" idx] by auto
    have m: "matched res idx = None"
      unfolding res_def by (simp add: match_outcome_matched [OF assms(1)] c)
    have "filter (\<lambda>e. fst e = idx) (multi_matched res) = []"
      unfolding res_def by (simp add: match_outcome_multi [OF assms(1)] c)
    then have mm: "idx \<notin> fst ` set (multi_matched res)"
      by (auto simp: filter_empty_conv)
    from u m mm show ?thesis unfolding res_def by simp
  qed
  have part2: "\<exists>rows. process_journal_unmatched pdf_files records use_doi use_special has_year
                       = Inr (Some rows) \<and>
                    (records ! idx)(''Unmatch_Reason'' \<mapsto> Str unmatch_reason) \<in> set rows \<and>
                    (\<forall>r \<in> set rows. r ''Unmatch_Reason'' = Some (Str unmatch_reason))"
    if f: "pdf_files \<noteq> []" and mc: "match_column = (if use_doi then ''DOI'' else ''Title'')"
      and d: "check_duplicates_in_csv records match_column use_doi = Inr csv_dups"
  proof -
    define res where
      "res = match_pdfs_to_records pdf_files records match_column use_doi use_special has_year"
    define rows where
      "rows = map (\<lambda>i. (records ! i)(''Unmatch_Reason'' \<mapsto> Str unmatch_reason)) (unmatched res)"
    have u: "idx \<in> set (unmatched res)"
      using part1 [OF assms(2)] by (simp add: res_def)
    then have ne: "unmatched res \<noteq> []" by auto
    have "\<forall>i \<in> set (unmatched res). i < length records"
      unfolding res_def by (blast dest: unmatched_in_range)
    then have s: "save_unmatched_csv records (unmatched res) unmatch_reason = Inr rows"
      unfolding rows_def by (rule save_unmatched_csv_in_range)
    have "process_journal_unmatched pdf_files records use_doi use_special has_year = Inr (Some rows)"
      using f ne s d
      by (simp add: process_journal_unmatched_def Let_def mc [symmetric] res_def [symmetric])
    moreover have "(records ! idx)(''Unmatch_Reason'' \<mapsto> Str unmatch_reason) \<in> set rows"
      using u by (auto simp: rows_def)
    moreover have "\<forall>r \<in> set rows. r ''Unmatch_Reason'' = Some (Str unmatch_reason)"
      by (auto simp: rows_def)
    ultimately show ?thesis by blast
  qed
  have part3: "pdf_files = [] \<Longrightarrow>
      process_journal_unmatched pdf_files records use_doi use_special has_year = Inr None"
    by (simp add: process_journal_unmatched_def)
  from part1 [OF assms(2)] part2 part3 show ?thesis
    unfolding Let_def by blast
qed

theorem empty_value_unmatched_witness:
  "(1::nat) < length [[''Title'' \<mapsto> Str ''Some paper''], [''Title'' \<mapsto> Str '''']] \<and>
   \<not> truthy (row_get ([[''Title'' \<mapsto> Str ''Some paper''], [''Title'' \<mapsto> Str '''']] ! 1) ''Title'') \<and>
   [(''Some paper_2021_DSS'', ''pdfs/Some paper_2021_DSS.pdf'')] \<noteq> [] \<and>
   check_duplicates_in_csv [[''Title'' \<mapsto> Str ''Some paper''], [''Title'' \<mapsto> Str '''']]
     ''Title'' False = Inr [] \<and>
   (let res = match_pdfs_to_records [(''Some paper_2021_DSS'', ''pdfs/Some paper_2021_DSS.pdf'')]
                [[''Title'' \<mapsto> Str ''Some paper''], [''Title'' \<mapsto> Str '''']] ''Title'' False False True
    in 1 \<in> set (unmatched res) \<and> matched res 1 = None \<and> 1 \<notin> fst ` set (multi_matched res)) \<and>
   process_journal_unmatched [(''Some paper_2021_DSS'', ''pdfs/Some paper_2021_DSS.pdf'')]
     [[''Title'' \<mapsto> Str ''Some paper''], [''Title'' \<mapsto> Str '''']] False False True =
     Inr (Some [[''Title'' \<mapsto> Str '''', ''Unmatch_Reason'' \<mapsto> Str unmatch_reason]])"
proof -
  let ?records = "[[''Title'' \<mapsto> Str ''Some paper''], [''Title'' \<mapsto> Str '''']]"
  let ?files = "[(''Some paper_2021_DSS'', ''pdfs/Some paper_2021_DSS.pdf'')]"
  have h1: "(1::nat) < length ?records" by simp
  have h2: "\<not> truthy (row_get (?records ! 1) ''Title'')"
    by (simp add: truthy_def row_get_def)
  have h3: "?files \<noteq> []" by simp
  have h4: "check_duplicates_in_csv ?records ''Title'' False = Inr []"
    by code_simp
  have u: "unmatched (match_pdfs_to_records ?files ?records ''Title'' False False True) = [1]"
    by code_simp
  have e: "process_journal_unmatched ?files ?records False False True =
     Inr (Some [[''Title'' \<mapsto> Str '''', ''Unmatch_Reason'' \<mapsto> Str unmatch_reason]])"
    by (simp add: process_journal_unmatched_def Let_def u h4)
  from empty_value_unmatched [OF h1 h2, where pdf_files = ?files
        and use_doi = False and use_special = False and has_year = True]
  have "let res = match_pdfs_to_records ?files ?records ''Title'' False False True
        in 1 \<in> set (unmatched res) \<and> matched res 1 = None \<and> 1 \<notin> fst ` set (multi_matched res)"
    by (rule conjunct1)
  with h1 h2 h3 h4 e show ?thesis by blast
qed

text \<open>
  C3, as stated, fails. One PDF file \<open>abc\<close> and two records, the first with an empty
  title and the second with the title \<open>zzz\<close>, which no file matches: both rows of the
  unmatched table carry the same reason, the text for "no matching PDF file found".
\<close>

theorem empty_value_reason_counterexample:
  "process_journal_unmatched [(''abc'', ''pdfs/abc.pdf'')]
     [[''Title'' \<mapsto> Str ''''], [''Title'' \<mapsto> Str ''zzz'']] False False True =
   Inr (Some [[''Title'' \<mapsto> Str '''', ''Unmatch_Reason'' \<mapsto> Str unmatch_reason],
              [''Title'' \<mapsto> Str ''zzz'', ''Unmatch_Reason'' \<mapsto> Str unmatch_reason]])"
proof -
  have d: "check_duplicates_in_csv [[''Title'' \<mapsto> Str ''''], [''Title'' \<mapsto> Str ''zzz'']]
             ''Title'' False = Inr []"
    by code_simp
  have u: "unmatched (match_pdfs_to_records [(''abc'', ''pdfs/abc.pdf'')]
     [[''Title'' \<mapsto> Str ''''], [''Title'' \<mapsto> Str ''zzz'']] ''Title'' False False True) = [0, 1]"
    by code_simp
  show ?thesis
    by (simp add: process_journal_unmatched_def Let_def d u)
qed

section \<open>Lemmas on the merge\<close>

lemma find_append_cases:
  "find P (xs @ ys) = (case find P xs of None \<Rightarrow> find P ys | Some x \<Rightarrow> Some x)"
  by (induction xs) auto

lemma find_map_Pair:
  "find (\<lambda>(j, r). P r) (map (Pair j) rows) = map_option (Pair j) (find P rows)"
  by (induction rows) auto

lemma find_None_tagged:
  "\<forall>(s, rs) \<in> set files. \<forall>r \<in> set rs. \<not> P r \<Longrightarrow>
   find (\<lambda>(j, r). P r) (tagged_rows files) = None"
  by (auto simp: tagged_rows_def find_None_iff)

lemma tagged_rows_append:
  "tagged_rows (xs @ ys) = tagged_rows xs @ tagged_rows ys"
  by (simp add: tagged_rows_def)

lemma tagged_rows_Cons:
  "tagged_rows ((stem, rows) # ys) = map (Pair (journal_of_stem stem)) rows @ tagged_rows ys"
  by (simp add: tagged_rows_def)

lemma fold_merge_tagged:
  "fold (\<lambda>(stem, rows). fold (merge_row aj al dd dk ex (journal_of_stem stem)) rows) csv_files st =
   fold (\<lambda>(j, r). merge_row aj al dd dk ex j r) (tagged_rows csv_files) st"
proof (induction csv_files arbitrary: st)
  case Nil
  then show ?case by (simp add: tagged_rows_def)
next
  case (Cons f fs)
  obtain stem rows where f: "f = (stem, rows)" by (cases f)
  have inner: "fold (merge_row aj al dd dk ex j) rows s =
               fold (\<lambda>(j, r). merge_row aj al dd dk ex j r) (map (Pair j) rows) s" for j s
    by (induction rows arbitrary: s) simp_all
  show ?case
    by (simp add: f tagged_rows_Cons inner Cons.IH)
qed

lemma merge_row_all_records:
  "all_records (merge_row aj al dd dk ex j r st) =
     all_records st @
       (if in_keys (row_get r dk) ex \<or> (dd \<and> row_get r dk \<in> seen_keys st) then []
        else [annotate_row aj al j r])"
  by (simp add: merge_row_def Let_def)

lemma merge_row_seen_keys:
  "seen_keys (merge_row aj al dd dk ex j r st) =
     (if in_keys (row_get r dk) ex \<or> \<not> dd then seen_keys st
      else insert (row_get r dk) (seen_keys st))"
  by (auto simp: merge_row_def Let_def)

lemma annotate_row_keeps_key:
  "\<not> (aj \<and> dk = ''Journal'') \<Longrightarrow> \<not> (al \<and> dk = ''DOI_Download_Link'') \<Longrightarrow>
   row_get (annotate_row aj al j r) dk = row_get r dk"
  by (auto simp: annotate_row_def row_get_def Let_def)

lemma fold_merge_not_excluded:
  assumes "\<not> (aj \<and> dk = ''Journal'')" and "\<not> (al \<and> dk = ''DOI_Download_Link'')"
  shows "\<forall>row \<in> set (all_records st). \<not> in_keys (row_get row dk) ex \<Longrightarrow>
         \<forall>row \<in> set (all_records (fold (\<lambda>(j, r). merge_row aj al dd dk ex j r) ts st)).
            \<not> in_keys (row_get row dk) ex"
proof (induction ts arbitrary: st)
  case Nil
  then show ?case by simp
next
  case (Cons t ts)
  obtain j r where t: "t = (j, r)" by (cases t)
  have "\<forall>row \<in> set (all_records (merge_row aj al dd dk ex j r st)). \<not> in_keys (row_get row dk) ex"
    using Cons.prems by (auto simp: merge_row_all_records annotate_row_keeps_key [OF assms])
  then show ?case
    unfolding t by (simp add: Cons.IH)
qed

lemma fold_merge_dedup:
  assumes "\<not> (aj \<and> dk = ''Journal'')" and "\<not> (al \<and> dk = ''DOI_Download_Link'')"
  shows "filter (\<lambda>row. row_get row dk = k)
           (all_records (fold (\<lambda>(j, r). merge_row aj al True dk ex j r) ts st)) =
         filter (\<lambda>row. row_get row dk = k) (all_records st) @
           (if k \<in> seen_keys st \<or> in_keys k ex then []
            else (case find (\<lambda>(j, r). row_get r dk = k) ts of
                    None \<Rightarrow> []
                  | Some (j, r) \<Rightarrow> [annotate_row aj al j r]))"
proof (induction ts arbitrary: st)
  case Nil
  then show ?case by simp
next
  case (Cons t ts)
  obtain j r where t: "t = (j, r)" by (cases t)
  define st' where "st' = merge_row aj al True dk ex j r st"
  note key = annotate_row_keeps_key [OF assms]
  have ih: "filter (\<lambda>row. row_get row dk = k)
           (all_records (fold (\<lambda>(j, r). merge_row aj al True dk ex j r) ts st')) =
         filter (\<lambda>row. row_get row dk = k) (all_records st') @
           (if k \<in> seen_keys st' \<or> in_keys k ex then []
            else (case find (\<lambda>(j, r). row_get r dk = k) ts of
                    None \<Rightarrow> []
                  | Some (j, r) \<Rightarrow> [annotate_row aj al j r]))"
    by (rule Cons.IH)
  have a: "all_records st' = all_records st @
       (if in_keys (row_get r dk) ex \<or> row_get r dk \<in> seen_keys st then []
        else [annotate_row aj al j r])"
    unfolding st'_def by (simp add: merge_row_all_records)
  have s: "seen_keys st' =
     (if in_keys (row_get r dk) ex then seen_keys st else insert (row_get r dk) (seen_keys st))"
    unfolding st'_def by (simp add: merge_row_seen_keys)
  have "filter (\<lambda>row. row_get row dk = k)
           (all_records (fold (\<lambda>(j, r). merge_row aj al True dk ex j r) (t # ts) st)) =
        filter (\<lambda>row. row_get row dk = k)
           (all_records (fold (\<lambda>(j, r). merge_row aj al True dk ex j r) ts st'))"
    by (simp add: t st'_def)
  also have "\<dots> = filter (\<lambda>row. row_get row dk = k) (all_records st) @
           (if k \<in> seen_keys st \<or> in_keys k ex then []
            else (case find (\<lambda>(j, r). row_get r dk = k) (t # ts) of
                    None \<Rightarrow> []
                  | Some (j, r) \<Rightarrow> [annotate_row aj al j r]))"
  proof (cases "row_get r dk = k")
    case True
    then show ?thesis
      unfolding ih a s t by (auto simp: key)
  next
    case False
    then show ?thesis
      unfolding ih a s t by (auto simp: key)
  qed
  finally show ?case .
qed

lemma merge_csv_files_tagged:
  "merge_csv_files csv_files aj al dd dk ex =
     all_records (fold (\<lambda>(j, r). merge_row aj al dd dk ex j r) (tagged_rows csv_files)
                    \<lparr>all_records = [], seen_keys = {}\<rparr>)"
  by (simp add: merge_csv_files_def fold_merge_tagged)

lemma merge_csv_files_not_excluded:
  assumes "\<not> (aj \<and> dk = ''Journal'')" and "\<not> (al \<and> dk = ''DOI_Download_Link'')"
  shows "\<forall>row \<in> set (merge_csv_files csv_files aj al dd dk ex). \<not> in_keys (row_get row dk) ex"
  unfolding merge_csv_files_tagged
  by (rule fold_merge_not_excluded [OF assms]) simp

lemma merge_csv_files_dedup:
  assumes "\<not> (aj \<and> dk = ''Journal'')" and "\<not> (al \<and> dk = ''DOI_Download_Link'')"
  shows "filter (\<lambda>row. row_get row dk = k) (merge_csv_files csv_files aj al True dk ex) =
           (if in_keys k ex then []
            else (case find (\<lambda>(j, r). row_get r dk = k) (tagged_rows csv_files) of
                    None \<Rightarrow> []
                  | Some (j, r) \<Rightarrow> [annotate_row aj al j r]))"
  unfolding merge_csv_files_tagged
  by (simp add: fold_merge_dedup [OF assms])



section \<open>Properties of the merge\<close>

text \<open>
  C5. In the merge of the unmatched tables, no row of the result has a \<open>DOI\<close> value that
  is in the set of excluded keys (the DOIs collected from the merged matched table).
\<close>

theorem merge_unmatched_excludes:
  "\<forall>row \<in> set (merge_unmatched csv_files matched_dois).
      \<not> in_keys (row_get row ''DOI'') matched_dois"
  unfolding merge_unmatched_def
  by (rule merge_csv_files_not_excluded) simp_all

theorem merge_unmatched_excludes_witness:
  "merge_unmatched
     [(''DSS_unmatched'', [[''DOI'' \<mapsto> Str ''10.1/a'', ''Title'' \<mapsto> Str ''A''],
                          [''DOI'' \<mapsto> Str ''10.1/b'', ''Title'' \<mapsto> Str ''B'']]),
      (''IM_unmatched'', [[''DOI'' \<mapsto> Str ''10.1/a'', ''Title'' \<mapsto> Str ''A again'']])]
     {''10.1/a''} =
     [[''DOI'' \<mapsto> Str ''10.1/b'', ''Title'' \<mapsto> Str ''B'',
       ''DOI_Download_Link'' \<mapsto> Str ''https://doi.org/10.1/b'']] \<and>
   \<not> in_keys
       (row_get [''DOI'' \<mapsto> Str ''10.1/b'', ''Title'' \<mapsto> Str ''B'',
                 ''DOI_Download_Link'' \<mapsto> Str ''https://doi.org/10.1/b''] ''DOI'')
       {''10.1/a''}"
proof -
  have u: "generate_doi_url (Str ''10.1/b'') = ''https://doi.org/10.1/b''"
    by code_simp
  have e: "merge_unmatched
     [(''DSS_unmatched'', [[''DOI'' \<mapsto> Str ''10.1/a'', ''Title'' \<mapsto> Str ''A''],
                          [''DOI'' \<mapsto> Str ''10.1/b'', ''Title'' \<mapsto> Str ''B'']]),
      (''IM_unmatched'', [[''DOI'' \<mapsto> Str ''10.1/a'', ''Title'' \<mapsto> Str ''A again'']])]
     {''10.1/a''} =
     [[''DOI'' \<mapsto> Str ''10.1/b'', ''Title'' \<mapsto> Str ''B'',
       ''DOI_Download_Link'' \<mapsto> Str ''https://doi.org/10.1/b'']]"
    by (simp add: merge_unmatched_def merge_csv_files_def merge_row_def annotate_row_def
        row_get_def in_keys_def Let_def u)
  have "\<forall>row \<in> set [[''DOI'' \<mapsto> Str ''10.1/b'', ''Title'' \<mapsto> Str ''B'',
       ''DOI_Download_Link'' \<mapsto> Str ''https://doi.org/10.1/b'']].
          \<not> in_keys (row_get row ''DOI'') {''10.1/a''}"
    using merge_unmatched_excludes
      [of "[(''DSS_unmatched'', [[''DOI'' \<mapsto> Str ''10.1/a'', ''Title'' \<mapsto> Str ''A''],
                          [''DOI'' \<mapsto> Str ''10.1/b'', ''Title'' \<mapsto> Str ''B'']]),
      (''IM_unmatched'', [[''DOI'' \<mapsto> Str ''10.1/a'', ''Title'' \<mapsto> Str ''A again'']])]"
        "{''10.1/a''}"]
    unfolding e .
  with e show ?thesis by simp
qed

text \<open>
  C6. In the merge of the unmatched tables, take a \<open>DOI\<close> value that is not excluded and
  the first table, in the order of merging, that has a row with it: the result holds
  exactly one row with that value, and it is the first such row of that table (with its
  download link added). Rows with the same value in later tables are dropped, so the
  order of the tables decides which row is kept.
\<close>

theorem merge_unmatched_first_seen:
  assumes "csv_files = before @ (stem, rows) # after"
    and "\<forall>(s, rs) \<in> set before. \<forall>r \<in> set rs. row_get r ''DOI'' \<noteq> k"
    and "find (\<lambda>r. row_get r ''DOI'' = k) rows = Some r0"
    and "\<not> in_keys k matched_dois"
  shows "filter (\<lambda>row. row_get row ''DOI'' = k) (merge_unmatched csv_files matched_dois) =
           [r0(''DOI_Download_Link'' \<mapsto> Str (generate_doi_url (row_get r0 ''DOI'')))]"
proof -
  have n: "find (\<lambda>(j, r). row_get r ''DOI'' = k) (tagged_rows before) = None"
    using assms(2) by (intro find_None_tagged) auto
  have f: "find (\<lambda>(j, r). row_get r ''DOI'' = k) (tagged_rows csv_files) =
           Some (journal_of_stem stem, r0)"
    unfolding assms(1) tagged_rows_append tagged_rows_Cons find_append_cases n find_map_Pair
    by (simp add: assms(3))
  have "filter (\<lambda>row. row_get row ''DOI'' = k) (merge_unmatched csv_files matched_dois) =
        [annotate_row False True (journal_of_stem stem) r0]"
    unfolding merge_unmatched_def
    by (subst merge_csv_files_dedup) (simp_all add: assms(4) f)
  then show ?thesis by (simp add: annotate_row_def)
qed

theorem merge_unmatched_first_seen_witness:
  "filter (\<lambda>row. row_get row ''DOI'' = Str ''10.1111/x'')
     (merge_unmatched
        [(''AIS_unmatched'', [[''DOI'' \<mapsto> Str ''10.2/y'', ''Title'' \<mapsto> Str ''other'']]),
         (''DSS_unmatched'', [[''DOI'' \<mapsto> Str ''10.1111/x'', ''Title'' \<mapsto> Str ''from DSS'']]),
         (''IM_unmatched'', [[''DOI'' \<mapsto> Str ''10.1111/x'', ''Title'' \<mapsto> Str ''from IM'']])]
        {''10.3/z''}) =
     [[''DOI'' \<mapsto> Str ''10.1111/x'', ''Title'' \<mapsto> Str ''from DSS'',
       ''DOI_Download_Link'' \<mapsto> Str ''https://doi.org/10.1111/x'']] \<and>
   filter (\<lambda>row. row_get row ''DOI'' = Str ''10.1111/x'')
     (merge_unmatched
        [(''AIS_unmatched'', [[''DOI'' \<mapsto> Str ''10.2/y'', ''Title'' \<mapsto> Str ''other'']]),
         (''IM_unmatched'', [[''DOI'' \<mapsto> Str ''10.1111/x'', ''Title'' \<mapsto> Str ''from IM'']]),
         (''DSS_unmatched'', [[''DOI'' \<mapsto> Str ''10.1111/x'', ''Title'' \<mapsto> Str ''from DSS'']])]
        {''10.3/z''}) =
     [[''DOI'' \<mapsto> Str ''10.1111/x'', ''Title'' \<mapsto> Str ''from IM'',
       ''DOI_Download_Link'' \<mapsto> Str ''https://doi.org/10.1111/x'']]"
proof -
  let ?a = "[''DOI'' \<mapsto> Str ''10.2/y'', ''Title'' \<mapsto> Str ''other'']"
  let ?d = "[''DOI'' \<mapsto> Str ''10.1111/x'', ''Title'' \<mapsto> Str ''from DSS'']"
  let ?i = "[''DOI'' \<mapsto> Str ''10.1111/x'', ''Title'' \<mapsto> Str ''from IM'']"
  have u: "generate_doi_url (Str ''10.1111/x'') = ''https://doi.org/10.1111/x''"
    by code_simp
  have gd: "row_get ?d ''DOI'' = Str ''10.1111/x''" and gi: "row_get ?i ''DOI'' = Str ''10.1111/x''"
    by (simp_all add: row_get_def)
  have x: "\<not> in_keys (Str ''10.1111/x'') {''10.3/z''}" by (simp add: in_keys_def)
  have h1: "[(''AIS_unmatched'', [?a]), (''DSS_unmatched'', [?d]), (''IM_unmatched'', [?i])] =
            [(''AIS_unmatched'', [?a])] @ (''DSS_unmatched'', [?d]) # [(''IM_unmatched'', [?i])]"
    by simp
  have h2: "[(''AIS_unmatched'', [?a]), (''IM_unmatched'', [?i]), (''DSS_unmatched'', [?d])] =
            [(''AIS_unmatched'', [?a])] @ (''IM_unmatched'', [?i]) # [(''DSS_unmatched'', [?d])]"
    by simp
  have b: "\<forall>(s, rs) \<in> set [(''AIS_unmatched'', [?a])].
             \<forall>r \<in> set rs. row_get r ''DOI'' \<noteq> Str ''10.1111/x''"
    by (simp add: row_get_def)
  have fd: "find (\<lambda>r. row_get r ''DOI'' = Str ''10.1111/x'') [?d] = Some ?d"
    by (simp add: gd)
  have fi: "find (\<lambda>r. row_get r ''DOI'' = Str ''10.1111/x'') [?i] = Some ?i"
    by (simp add: gi)
  from merge_unmatched_first_seen [OF h1 b fd x] merge_unmatched_first_seen [OF h2 b fi x]
  show ?thesis by (simp add: gd gi u)
qed




end
